theory Spec2Isabelle
  imports Main
begin

section \<open>The recurring-job scheduler: data model\<close>

text \<open>
  The scheduler is the part of the library that declares \<^verbatim>\<open>Job\<close>, \<^verbatim>\<open>prepare\<close>,
  \<^verbatim>\<open>run\<close> and \<^verbatim>\<open>sequence\<close>. Durations are milliseconds, taken as natural numbers.

  \<^verbatim>\<open>type Status = 'error' | 'pending' | 'running' | undefined\<close>: the three strings are the
  constructors below, \<^verbatim>\<open>undefined\<close> is \<open>None\<close> of \<open>status option\<close>.
\<close>

datatype status = Error | Pending | Running

text \<open>
  The values a promise of the scheduler is rejected with: the two error classes of the
  source, with their fields \<^verbatim>\<open>jobName\<close>, \<^verbatim>\<open>status\<close> and \<^verbatim>\<open>message\<close>, and any other value
  a task throws, opaque to the scheduler.
\<close>

datatype error =
    PreviousExecutionNotCompleteError string "status option" string
  | TimeoutError string "status option" string
  | Thrown nat

text \<open>
  A task is an asynchronous function (\<^verbatim>\<open>type DoFn = () => Promise<void>\<close>): a call returns
  a promise at once and never throws synchronously. All the scheduler can observe of the
  call is how that promise settles: fulfilled after \<open>d\<close> milliseconds, rejected after \<open>d\<close>
  milliseconds with a reason, or never. The argument of a \<open>DoFn\<close> is the number of calls made
  before this one, so that a task may behave differently from call to call.
\<close>

datatype settle = Resolves nat | Rejects nat error | Never

type_synonym DoFn = "nat \<Rightarrow> settle"

text \<open>
  \<^verbatim>\<open>type JobInfo = Pick<Job, 'name' | 'status'>\<close> and \<^verbatim>\<open>type Job\<close>. \<^verbatim>\<open>Pick\<close> keeps the two
  properties writable, and a \<^verbatim>\<open>Job\<close> is a \<^verbatim>\<open>JobInfo\<close> with more fields, which is what the
  record extension says. The field \<^verbatim>\<open>defer\<close> is \<open>defer_ms\<close> here.
\<close>

record job_info =
  name :: string
  status :: "status option"

record job = job_info +
  do :: DoFn
  interval :: nat
  defer_ms :: "nat option"
  timeout :: "nat option"

text \<open>
  \<^verbatim>\<open>type InfoFn = (job: JobInfo) => void\<close> and
  \<^verbatim>\<open>type ErrorFn = (job: JobInfo, err: unknown) => void\<close>. A callback returns nothing; what
  it can do to the scheduler is write the object it is given, and \<^verbatim>\<open>prepare\<close> gives it the
  job object itself. The parameter type shows the name and the status only, but a type
  is no copy and is gone at run time: a write to any property of the object is a write to
  the job. So a callback is the function from the job it is given to the job it leaves
  behind; a callback that only reads is the identity. Callbacks do not throw.
\<close>

type_synonym InfoFn = "job \<Rightarrow> job"

type_synonym ErrorFn = "job \<Rightarrow> error \<Rightarrow> job"


text \<open>The settled state of the promise an asynchronous function returns.\<close>

datatype result = Fulfilled | Rejected error | Unsettled

text \<open>JavaScript truthiness of an optional number: \<^verbatim>\<open>undefined\<close> and \<^verbatim>\<open>0\<close> are falsy.\<close>

fun truthy :: "nat option \<Rightarrow> bool" where
  "truthy None = False"
| "truthy (Some n) = (n \<noteq> 0)"

text \<open>
  The timers are Node's (\<^verbatim>\<open>import { clearInterval, setInterval } from 'timers'\<close>, and the
  global \<^verbatim>\<open>setTimeout\<close>): a delay below 1 ms or above 2147483647 ms is set to 1 ms.
\<close>

definition TIMEOUT_MAX :: nat where
  "TIMEOUT_MAX = 2147483647"

definition timer_delay :: "nat \<Rightarrow> nat" where
  "timer_delay d = (if d < 1 \<or> TIMEOUT_MAX < d then 1 else d)"

section \<open>The job supervisor: \<^verbatim>\<open>prepare\<close>\<close>

text \<open>
  What one invocation of a prepared runnable does, in order: the callbacks it calls with
  the \<^verbatim>\<open>JobInfo\<close> they see, the assignments to \<^verbatim>\<open>job.status\<close>, the call of the task (with
  its call number), and a rejection that no handler receives.
\<close>

datatype event =
    Before job_info
  | After job_info
  | OnError job_info error
  | Assign status
  | Call nat
  | Unhandled error

text \<open>
  The state a runnable works on: the job object it closes over, the number of calls of
  the task so far, the events so far, and the call numbers of the tasks that were left
  running when their invocation stopped waiting for them.
\<close>

record world =
  job :: job
  calls :: nat
  log :: "event list"
  detached :: "nat list"

definition emit :: "event \<Rightarrow> world \<Rightarrow> world" where
  "emit e w = w\<lparr>log := log w @ [e]\<rparr>"

text \<open>\<^verbatim>\<open>job.status = s\<close>\<close>

definition set_status :: "status \<Rightarrow> world \<Rightarrow> world" where
  "set_status s w = emit (Assign s) (w\<lparr>job := (job w)\<lparr>status := Some s\<rparr>\<rparr>)"

text \<open>
  What the parameter type of a callback shows of the job, kept in the record of events.
\<close>

definition info :: "job \<Rightarrow> job_info" where
  "info j = \<lparr>name = name j, status = status j\<rparr>"

text \<open>
  \<^verbatim>\<open>before && before(job)\<close> and \<^verbatim>\<open>after && after(job)\<close>: the callback is passed \<^verbatim>\<open>job\<close>, and
  the job is from then on as the callback left it.
\<close>

definition call_before :: "InfoFn option \<Rightarrow> world \<Rightarrow> world" where
  "call_before cb w =
     (case cb of
        None \<Rightarrow> w
      | Some f \<Rightarrow> emit (Before (info (job w))) (w\<lparr>job := f (job w)\<rparr>))"

definition call_after :: "InfoFn option \<Rightarrow> world \<Rightarrow> world" where
  "call_after cb w =
     (case cb of
        None \<Rightarrow> w
      | Some f \<Rightarrow> emit (After (info (job w))) (w\<lparr>job := f (job w)\<rparr>))"

text \<open>\<^verbatim>\<open>onError(job, err)\<close>\<close>

definition call_onError :: "ErrorFn \<Rightarrow> error \<Rightarrow> world \<Rightarrow> world" where
  "call_onError f err w =
     emit (OnError (info (job w)) err) (w\<lparr>job := f (job w) err\<rparr>)"

text \<open>What an \<^verbatim>\<open>await\<close> inside the \<^verbatim>\<open>try\<close> block comes back with.\<close>

datatype awaited = Returned | Threw error | Hangs

text \<open>\<^verbatim>\<open>doJob()\<close>: the call is counted and its promise is the task's next behaviour.\<close>

definition call_task :: "DoFn \<Rightarrow> world \<Rightarrow> world \<times> settle" where
  "call_task doJob w = (emit (Call (calls w)) (w\<lparr>calls := Suc (calls w)\<rparr>), doJob (calls w))"

text \<open>\<^verbatim>\<open>else await doJob()\<close>\<close>

definition await_task :: "DoFn \<Rightarrow> world \<Rightarrow> world \<times> awaited" where
  "await_task doJob w =
     (case call_task doJob w of
        (w1, Resolves d) \<Rightarrow> (w1, Returned)
      | (w1, Rejects d e) \<Rightarrow> (w1, Threw e)
      | (w1, Never) \<Rightarrow> (w1, Hangs))"

text \<open>
  Whether the task's promise settles before a timer set just before the call, that
  fires \<open>t\<close> milliseconds later. At equal times the timer, registered first, fires first.
\<close>

fun settles_before :: "settle \<Rightarrow> nat \<Rightarrow> bool" where
  "settles_before (Resolves d) t = (d < t)"
| "settles_before (Rejects d e) t = (d < t)"
| "settles_before Never t = False"

text \<open>
  The \<^verbatim>\<open>if (job.timeout)\<close> branch:
  \<^verbatim>\<open>
  await new Promise((res, rej) => {
    const t = setTimeout(() => {
      rej(new TimeoutError(job.name, job.status, 'timed out'))
    }, job.timeout)
    doJob().then(res).finally(() => { if (t) clearTimeout(t) })
  })
  \<close>
  \<^item> The task is fulfilled first: \<^verbatim>\<open>then(res)\<close> fulfils the awaited promise and \<^verbatim>\<open>finally\<close>
    clears the timer.
  \<^item> The task is rejected first: \<^verbatim>\<open>then(res)\<close> has no rejection handler, so \<^verbatim>\<open>res\<close> is not
    called and the promise of \<^verbatim>\<open>then\<close> is rejected with the task's reason; \<^verbatim>\<open>finally\<close>
    clears the timer and passes the rejection on to a promise nobody handles. Neither
    \<^verbatim>\<open>res\<close> nor \<^verbatim>\<open>rej\<close> is ever called: the awaited promise stays pending.
  \<^item> The timer fires first: \<^verbatim>\<open>rej\<close> is called with a \<^verbatim>\<open>TimeoutError\<close> built from the job's
    name and status at that moment. Nothing stops the task: it is left running, and its
    call number is added to \<open>detached\<close>. What it does later is no part of this invocation.

  The timer is set for \<^verbatim>\<open>job.timeout\<close> and so fires after \<open>timer_delay t\<close>.
\<close>

definition await_race :: "DoFn \<Rightarrow> nat \<Rightarrow> world \<Rightarrow> world \<times> awaited" where
  "await_race doJob t w =
     (case call_task doJob w of (w1, s) \<Rightarrow>
        if settles_before s (timer_delay t) then
          (case s of
             Resolves d \<Rightarrow> (w1, Returned)
           | Rejects d e \<Rightarrow> (emit (Unhandled e) w1, Hangs)
           | Never \<Rightarrow> (w1, Hangs))
        else
          (w1\<lparr>detached := detached w1 @ [calls w]\<rparr>,
           Threw (TimeoutError (name (job w1)) (status (job w1)) ''timed out'')))"

text \<open>
  \<^verbatim>\<open>prepare(job, before, after, onError)\<close>. \<open>j0\<close> is the job as it is when \<^verbatim>\<open>prepare\<close> is
  called, from which \<^verbatim>\<open>const doJob = job.do\<close> is read once. The result is the runnable:
  an invocation takes the world, whose \<open>job\<close> is the same object as it is by then, and
  gives the world it leaves and how the promise it returned settles. The parameters
  \<^verbatim>\<open>before\<close> and \<^verbatim>\<open>after\<close> are \<open>beforeFn\<close> and \<open>afterFn\<close>.

  An invocation is taken whole, from the call to the settling of its promise: while it
  waits for the task nobody else writes the job. An invocation made while another one
  waits is an invocation in a world whose status is \<^verbatim>\<open>'running'\<close>.
\<close>

definition prepare ::
  "job \<Rightarrow> InfoFn option \<Rightarrow> InfoFn option \<Rightarrow> ErrorFn option \<Rightarrow> world \<Rightarrow> world \<times> result" where
  "prepare j0 beforeFn afterFn onError w =
     (let doJob = do j0 in
      if status (job w) = Some Running then
        (let err = PreviousExecutionNotCompleteError (name (job w)) (status (job w)) '''' in
         case onError of
           Some f \<Rightarrow> (call_onError f err w, Fulfilled)
         | None \<Rightarrow> (w, Rejected err))
      else
        (let w1 = call_before beforeFn w;
             w2 = set_status Running w1
         in case (if truthy (timeout (job w2))
                  then await_race doJob (the (timeout (job w2))) w2
                  else await_task doJob w2) of
              (w3, Returned) \<Rightarrow> (call_after afterFn (set_status Pending w3), Fulfilled)
            | (w3, Threw err) \<Rightarrow>
                (let w4 = set_status Error w3 in
                 case onError of
                   Some f \<Rightarrow> (call_onError f err w4, Fulfilled)
                 | None \<Rightarrow> (w4, Rejected err))
            | (w3, Hangs) \<Rightarrow> (w3, Unsettled)))"

text \<open>
  \<open>n\<close> invocations of a runnable one after the other, each made when the one before has
  settled: the world is handed from one to the next.
\<close>

fun repeatedly :: "(world \<Rightarrow> world \<times> result) \<Rightarrow> nat \<Rightarrow> world \<Rightarrow> world \<times> result list" where
  "repeatedly r 0 w = (w, [])"
| "repeatedly r (Suc n) w =
     (case r w of (w1, x) \<Rightarrow> (case repeatedly r n w1 of (w2, xs) \<Rightarrow> (w2, x # xs)))"

text \<open>A call of the task that succeeds, whenever that may be.\<close>

fun succeeds :: "settle \<Rightarrow> bool" where
  "succeeds (Resolves d) = True"
| "succeeds (Rejects d e) = False"
| "succeeds Never = False"

text \<open>
  A callback that is absent, or that leaves \<^verbatim>\<open>status\<close> as it finds it; and the same for
  \<^verbatim>\<open>timeout\<close>.
\<close>

fun keeps_status :: "InfoFn option \<Rightarrow> bool" where
  "keeps_status None = True"
| "keeps_status (Some f) = (\<forall>j. status (f j) = status j)"

fun keeps_timeout :: "InfoFn option \<Rightarrow> bool" where
  "keeps_timeout None = True"
| "keeps_timeout (Some f) = (\<forall>j. timeout (f j) = timeout j)"

fun onError_keeps_status :: "ErrorFn option \<Rightarrow> bool" where
  "onError_keeps_status None = True"
| "onError_keeps_status (Some f) = (\<forall>j err. status (f j err) = status j)"



text \<open>
  The events of one successful tick: \<^verbatim>\<open>before\<close> if supplied, \<^verbatim>\<open>status = 'running'\<close>, the
  task, \<^verbatim>\<open>status = 'pending'\<close>, and \<^verbatim>\<open>after\<close> if supplied, which sees the status
  \<^verbatim>\<open>'pending'\<close>.
\<close>

definition tick_events :: "InfoFn option \<Rightarrow> InfoFn option \<Rightarrow> event list \<Rightarrow> bool" where
  "tick_events beforeFn afterFn es =
     (\<exists>i n k.
        es = (case beforeFn of None \<Rightarrow> [] | Some f \<Rightarrow> [Before i])
             @ [Assign Running, Call k, Assign Pending]
             @ (case afterFn of None \<Rightarrow> [] | Some f \<Rightarrow> [After \<lparr>name = n, status = Some Pending\<rparr>]))"

section \<open>The sequencer: \<^verbatim>\<open>sequence\<close>\<close>

text \<open>
  \<^verbatim>\<open>
  export const sequence = (...doFns: DoFn[]): DoFn => async () => {
    for (let i = 0; i < doFns.length; i++) {
      await doFns[i]()
    }
  }
  \<close>
  A runnable here is any function from the state it works on to the state it leaves and
  the way its promise settles. The loop stops at the first \<^verbatim>\<open>await\<close> that throws, and
  stays at an \<^verbatim>\<open>await\<close> whose promise never settles.
\<close>

function sequence_from :: "nat \<Rightarrow> ('w \<Rightarrow> 'w \<times> result) list \<Rightarrow> 'w \<Rightarrow> 'w \<times> result" where
  "sequence_from i doFns w =
     (if i < length doFns then
        (case (doFns ! i) w of
           (w1, Fulfilled) \<Rightarrow> sequence_from (i + 1) doFns w1
         | (w1, Rejected e) \<Rightarrow> (w1, Rejected e)
         | (w1, Unsettled) \<Rightarrow> (w1, Unsettled))
      else (w, Fulfilled))"
  by pat_completeness auto
termination
  by (relation "measure (\<lambda>(i, doFns, w). length doFns - i)") auto

declare sequence_from.simps [simp del]

definition sequence :: "('w \<Rightarrow> 'w \<times> result) list \<Rightarrow> 'w \<Rightarrow> 'w \<times> result" where
  "sequence doFns = sequence_from 0 doFns"

section \<open>The cycle orchestrator: \<^verbatim>\<open>run\<close>\<close>

text \<open>
  \<^verbatim>\<open>run\<close> works on objects: the caller's array holds references to job objects, and
  \<^verbatim>\<open>{ ...job, status: 'pending' }\<close> makes new ones. The store is the list of all job
  objects, an address is a position in it, and a new object goes at the end.

  The event loop has timers. A timer has an identity (what \<^verbatim>\<open>setTimeout\<close> and
  \<^verbatim>\<open>setInterval\<close> return), the time it is due, its period when it repeats, and its
  callback: \<^verbatim>\<open>startJob\<close> or \<^verbatim>\<open>tick\<close> of the closure of one job. Time is in milliseconds
  from the call of \<^verbatim>\<open>run\<close>; a timer set for \<open>d\<close> milliseconds is due \<open>timer_delay d\<close>
  milliseconds later and fires when it is due.
\<close>

datatype action = StartJob nat | Tick nat

record timer =
  tid :: nat
  due :: nat
  every :: "nat option"
  act :: action

text \<open>
  The state of one call of \<^verbatim>\<open>run\<close>: the clock, the store, the timers that are set, the
  next timer identity, the array \<^verbatim>\<open>timeouts\<close>, the rejections of ticks in flight that
  \<^verbatim>\<open>catch(fail)\<close> will receive (each with the time it comes at), and the promise \<^verbatim>\<open>run\<close>
  returned. Two traces are kept for the record: when \<^verbatim>\<open>setInterval\<close> was called for a
  job, and when a job was ticked.
\<close>

record cycle =
  now :: nat
  heap :: "job list"
  timers :: "timer list"
  next_tid :: nat
  timeouts :: "nat list"
  rejections :: "(nat \<times> error) list"
  promise :: result
  armed :: "(nat \<times> nat) list"
  ticked :: "(nat \<times> nat) list"

text \<open>
  \<^verbatim>\<open>
  const fail = (err: unknown) => {
    timeouts.forEach(clearInterval)
    reject(err)
  }
  \<close>
  \<^verbatim>\<open>reject\<close> settles the promise only if it is still pending.
\<close>

definition fail :: "error \<Rightarrow> cycle \<Rightarrow> cycle" where
  "fail err s =
     s\<lparr>timers := filter (\<lambda>t. tid t \<notin> set (timeouts s)) (timers s),
       promise := (if promise s = Unsettled then Rejected err else promise s)\<rparr>"

text \<open>
  \<^verbatim>\<open>const tick = () => job.do().catch(fail)\<close>. Calls are numbered through the whole cycle,
  so that tasks may share what they count by; only a rejection of the call's promise has
  a consequence, \<open>d\<close> milliseconds later.
\<close>

definition tick :: "nat \<Rightarrow> cycle \<Rightarrow> cycle" where
  "tick a s =
     (let s1 = s\<lparr>ticked := ticked s @ [(now s, a)]\<rparr> in
      case do (heap s ! a) (length (ticked s)) of
        Rejects d e \<Rightarrow> s1\<lparr>rejections := rejections s1 @ [(now s + d, e)]\<rparr>
      | Resolves d \<Rightarrow> s1
      | Never \<Rightarrow> s1)"

text \<open>
  \<^verbatim>\<open>
  const startJob = () => {
    const tick = () => job.do().catch(fail)
    timeouts.push(setInterval(tick, job.interval))
    tick()
  }
  \<close>
\<close>

definition startJob :: "nat \<Rightarrow> cycle \<Rightarrow> cycle" where
  "startJob a s =
     tick a
       (s\<lparr>timers := timers s @
            [\<lparr>tid = next_tid s, due = now s + timer_delay (interval (heap s ! a)),
              every = Some (timer_delay (interval (heap s ! a))), act = Tick a\<rparr>],
          next_tid := Suc (next_tid s),
          timeouts := timeouts s @ [next_tid s],
          armed := armed s @ [(now s, a)]\<rparr>)"

text \<open>
  The body of \<^verbatim>\<open>forEach\<close>:
  \<^verbatim>\<open>
  if (job.defer) setTimeout(startJob, job.defer)
  else startJob()
  \<close>
  The identity \<^verbatim>\<open>setTimeout\<close> returns is dropped: it is not pushed to \<^verbatim>\<open>timeouts\<close>.
\<close>

definition schedule :: "nat \<Rightarrow> cycle \<Rightarrow> cycle" where
  "schedule a s =
     (if truthy (defer_ms (heap s ! a)) then
        s\<lparr>timers := timers s @
             [\<lparr>tid = next_tid s, due = now s + timer_delay (the (defer_ms (heap s ! a))),
               every = None, act = StartJob a\<rparr>],
          next_tid := Suc (next_tid s)\<rparr>
      else startJob a s)"

text \<open>
  \<^verbatim>\<open>
  export const run = (jobs: Job[]): Promise<void> => new Promise((resolve, reject) => {
    const timeouts: NodeJS.Timeout[] = []
    const fail = ...
    jobs
      .map(job => ({ ...job, status: 'pending' }))
      .forEach(job => { ... })
  })
  \<close>
  \<open>run h jobs\<close> is the state when the call returns: \<open>h\<close> is the store at the call and
  \<open>jobs\<close> the addresses in the caller's array.
\<close>

definition run :: "job list \<Rightarrow> nat list \<Rightarrow> cycle" where
  "run h jobs =
     (let copies = map (\<lambda>a. (h ! a)\<lparr>status := Some Pending\<rparr>) jobs;
          refs = [length h ..< length h + length jobs]
      in foldl (\<lambda>s a. schedule a s)
           \<lparr>now = 0, heap = h @ copies, timers = [], next_tid = 0, timeouts = [],
            rejections = [], promise = Unsettled, armed = [], ticked = []\<rparr>
           refs)"

text \<open>
  The event loop. What happens next is the earliest of the rejections to come and the
  timers that are set; among equals the first registered, and a rejection before a
  timer. The order among equals is a choice made here: Node orders them by how the task
  came to be rejected. The relation \<open>reached\<close> below leaves the order open.
\<close>

fun earliest :: "('a \<Rightarrow> nat) \<Rightarrow> 'a list \<Rightarrow> 'a option" where
  "earliest f [] = None"
| "earliest f (x # xs) =
     (case earliest f xs of
        None \<Rightarrow> Some x
      | Some y \<Rightarrow> if f y < f x then Some y else Some x)"

text \<open>A tick's promise is rejected: \<^verbatim>\<open>catch(fail)\<close> calls \<^verbatim>\<open>fail\<close> with the reason.\<close>

definition deliver :: "nat \<times> error \<Rightarrow> cycle \<Rightarrow> cycle" where
  "deliver r s =
     fail (snd r) (s\<lparr>now := max (now s) (fst r), rejections := remove1 r (rejections s)\<rparr>)"

text \<open>
  A timer fires: a timeout is gone, an interval is due again one period later; then its
  callback runs.
\<close>

definition fire :: "timer \<Rightarrow> cycle \<Rightarrow> cycle" where
  "fire t s =
     (let s1 = s\<lparr>now := max (now s) (due t),
                 timers :=
                   (case every t of
                      None \<Rightarrow> remove1 t (timers s)
                    | Some p \<Rightarrow>
                        map (\<lambda>u. if u = t then u\<lparr>due := max (now s) (due t) + p\<rparr> else u)
                          (timers s))\<rparr>
      in case act t of
           StartJob a \<Rightarrow> startJob a s1
         | Tick a \<Rightarrow> tick a s1)"

definition step :: "cycle \<Rightarrow> cycle" where
  "step s =
     (case earliest fst (rejections s) of
        None \<Rightarrow>
          (case earliest due (timers s) of
             None \<Rightarrow> s
           | Some t \<Rightarrow> fire t s)
      | Some r \<Rightarrow>
          (case earliest due (timers s) of
             None \<Rightarrow> deliver r s
           | Some t \<Rightarrow> if fst r \<le> due t then deliver r s else fire t s))"

fun steps :: "nat \<Rightarrow> cycle \<Rightarrow> cycle" where
  "steps 0 s = s"
| "steps (Suc n) s = steps n (step s)"

text \<open>
  The states a cycle can be in when rejections and timers are handled in any order
  whatever, a timer never before it is due.
\<close>

inductive reached :: "job list \<Rightarrow> nat list \<Rightarrow> cycle \<Rightarrow> bool" for h :: "job list" and jobs :: "nat list"
  where
    at_call: "reached h jobs (run h jobs)"
  | rejection: "reached h jobs s \<Longrightarrow> r \<in> set (rejections s) \<Longrightarrow> reached h jobs (deliver r s)"
  | timer: "reached h jobs s \<Longrightarrow> t \<in> set (timers s) \<Longrightarrow> reached h jobs (fire t s)"

text \<open>The job a timer's callback belongs to.\<close>

fun ref :: "action \<Rightarrow> nat" where
  "ref (StartJob a) = a"
| "ref (Tick a) = a"

text \<open>The reasons with which a call of the task of one of the caller's jobs can be rejected.\<close>

definition failures :: "job list \<Rightarrow> nat list \<Rightarrow> error set" where
  "failures h jobs = {e. \<exists>a \<in> set jobs. \<exists>k d. do (h ! a) k = Rejects d e}"

text \<open>
  What holds of a cycle from the call of \<^verbatim>\<open>run\<close> on: the store is the caller's objects
  followed by the copies; timers, ticks and intervals belong to copies; a rejection to
  come, and the one the promise is settled with, is a failure of a job's task.
\<close>

definition working :: "job list \<Rightarrow> nat list \<Rightarrow> nat set" where
  "working h jobs = {length h ..< length h + length jobs}"

definition cycle_inv :: "job list \<Rightarrow> nat list \<Rightarrow> cycle \<Rightarrow> bool" where
  "cycle_inv h jobs s =
     (heap s = h @ map (\<lambda>a. (h ! a)\<lparr>status := Some Pending\<rparr>) jobs
      \<and> (\<forall>t \<in> set (timers s). ref (act t) \<in> working h jobs)
      \<and> (\<forall>x \<in> set (armed s). snd x \<in> working h jobs)
      \<and> (\<forall>x \<in> set (ticked s). snd x \<in> working h jobs)
      \<and> (\<forall>r \<in> set (rejections s). snd r \<in> failures h jobs)
      \<and> promise s \<in> insert Unsettled (Rejected ` failures h jobs))"

text \<open>
  Nothing of job \<open>a\<close> is earlier than \<open>d\<close>: no call of \<^verbatim>\<open>setInterval\<close>, no tick, and no
  timer due.
\<close>

definition not_before :: "nat \<Rightarrow> nat \<Rightarrow> cycle \<Rightarrow> bool" where
  "not_before d a s =
     ((\<forall>x \<in> set (armed s). snd x = a \<longrightarrow> d \<le> fst x)
      \<and> (\<forall>x \<in> set (ticked s). snd x = a \<longrightarrow> d \<le> fst x)
      \<and> (\<forall>t \<in> set (timers s). ref (act t) = a \<longrightarrow> d \<le> due t))"

text \<open>
  The clock is not ahead of anything to come, timer identities are fresh, a period is at
  least a millisecond, and a timeout that starts a deferred job does not repeat and is
  not listed in \<^verbatim>\<open>timeouts\<close>.
\<close>

definition in_time :: "cycle \<Rightarrow> bool" where
  "in_time s =
     ((\<forall>t \<in> set (timers s). now s \<le> due t \<and> tid t < next_tid s)
      \<and> (\<forall>r \<in> set (rejections s). now s \<le> fst r)
      \<and> (\<forall>i \<in> set (timeouts s). i < next_tid s)
      \<and> (\<forall>t \<in> set (timers s). \<forall>p. every t = Some p \<longrightarrow> 0 < p)
      \<and> (\<forall>t \<in> set (timers s). \<forall>a. act t = StartJob a \<longrightarrow>
            every t = None \<and> tid t \<notin> set (timeouts s)))"






text \<open>
  Every timer that is set is an interval listed in \<^verbatim>\<open>timeouts\<close>, and none is set once the
  promise is settled.
\<close>

definition tracked :: "cycle \<Rightarrow> bool" where
  "tracked s =
     ((\<forall>t \<in> set (timers s). tid t \<in> set (timeouts s) \<and> (\<exists>a. act t = Tick a))
      \<and> (promise s \<noteq> Unsettled \<longrightarrow> timers s = []))"

section \<open>Jobs, callbacks and worlds used as examples\<close>

text \<open>A world in which nothing has happened yet to the job.\<close>

definition fresh :: "job \<Rightarrow> world" where
  "fresh j = \<lparr>job = j, calls = 0, log = [], detached = []\<rparr>"

text \<open>Callbacks that only read what they are given.\<close>

definition observe :: InfoFn where
  "observe j = j"

definition report :: ErrorFn where
  "report j err = j"

text \<open>
  \<^verbatim>\<open>(job) => { job.status = 'running' }\<close>, \<^verbatim>\<open>(job) => { job.name = 'renamed' }\<close> and
  \<^verbatim>\<open>(job, err) => { job.status = 'pending' }\<close>, which are well typed as an \<^verbatim>\<open>InfoFn\<close> and an
  \<^verbatim>\<open>ErrorFn\<close>.
\<close>

definition mark_running :: InfoFn where
  "mark_running j = j\<lparr>status := Some Running\<rparr>"

definition rename :: InfoFn where
  "rename j = j\<lparr>name := ''renamed''\<rparr>"

definition reset :: ErrorFn where
  "reset j err = j\<lparr>status := Some Pending\<rparr>"

text \<open>
  A callback that reaches beyond its parameter type, as a caller in JavaScript or a cast
  allows: \<^verbatim>\<open>(job) => { job.timeout = 1 }\<close>.
\<close>

definition shorten :: InfoFn where
  "shorten j = j\<lparr>timeout := Some 1\<rparr>"

text \<open>A task that is fulfilled at once, every time.\<close>

definition quick :: job where
  "quick = \<lparr>name = ''quick'', status = None, do = (\<lambda>k. Resolves 0), interval = 1000,
            defer_ms = None, timeout = None\<rparr>"

text \<open>A task that is rejected after 10 ms, in a job with a timeout of 100 ms.\<close>

definition flaky :: job where
  "flaky = \<lparr>name = ''flaky'', status = None, do = (\<lambda>k. Rejects 10 (Thrown 7)), interval = 1000,
            defer_ms = None, timeout = Some 100\<rparr>"

text \<open>A task that is fulfilled after 200 ms, in a job with a timeout of 50 ms.\<close>

definition slow :: job where
  "slow = \<lparr>name = ''slow'', status = None, do = (\<lambda>k. Resolves 200), interval = 1000,
           defer_ms = None, timeout = Some 50\<rparr>"

text \<open>A task that is fulfilled after 5 ms, every time, in a job without timeout.\<close>

definition unhurried :: job where
  "unhurried = \<lparr>name = ''unhurried'', status = None, do = (\<lambda>k. Resolves 5), interval = 1000,
                defer_ms = None, timeout = None\<rparr>"

text \<open>A job whose execution is in flight.\<close>

definition busy :: job where
  "busy = quick\<lparr>name := ''busy'', status := Some Running\<rparr>"

text \<open>
  Jobs for a cycle: one whose first tick is rejected at once, one that waits 500 ms
  before it starts, and one whose third tick is rejected.
\<close>

definition failing :: job where
  "failing = \<lparr>name = ''failing'', status = None, do = (\<lambda>k. Rejects 0 (Thrown 1)), interval = 100,
              defer_ms = None, timeout = None\<rparr>"

definition deferred :: job where
  "deferred = \<lparr>name = ''deferred'', status = None, do = (\<lambda>k. Resolves 0), interval = 100,
               defer_ms = Some 500, timeout = None\<rparr>"


text \<open>
  Two jobs without deferment, with intervals of 100 ms and 150 ms: the third tick of the
  first, which is the fifth call of the cycle, is rejected after 5 ms; the second never
  fails.
\<close>

definition third_fails :: job where
  "third_fails = \<lparr>name = ''third_fails'', status = None,
     do = (\<lambda>k. if k = 4 then Rejects 5 (Thrown 3) else Resolves 0), interval = 100,
     defer_ms = None, timeout = None\<rparr>"

definition steady :: job where
  "steady = \<lparr>name = ''steady'', status = None, do = (\<lambda>k. Resolves 0), interval = 150,
     defer_ms = None, timeout = None\<rparr>"

text \<open>Runnables that write their number down and are fulfilled, or rejected.\<close>

definition passes :: "nat \<Rightarrow> nat list \<Rightarrow> nat list \<times> result" where
  "passes n w = (w @ [n], Fulfilled)"

definition breaks :: "nat \<Rightarrow> nat list \<Rightarrow> nat list \<times> result" where
  "breaks n w = (w @ [n], Rejected (Thrown n))"

section \<open>What the supervisor does\<close>

lemmas prepare_defs = prepare_def Let_def set_status_def emit_def call_before_def call_after_def
  call_onError_def await_task_def await_race_def call_task_def info_def

lemma timer_delay_small [simp]: "timer_delay 1 = 1" "timer_delay 50 = 50" "timer_delay 100 = 100"
  "timer_delay 150 = 150" "timer_delay 500 = 500" "timer_delay 1000 = 1000"
  by (simp_all add: timer_delay_def TIMEOUT_MAX_def)

lemma timer_delay_Suc_0 [simp]: "timer_delay (Suc 0) = Suc 0"
  by (simp add: timer_delay_def TIMEOUT_MAX_def)

lemma timer_delay_le: "t \<noteq> 0 \<Longrightarrow> timer_delay t \<le> t"
  by (simp add: timer_delay_def)

lemma timer_delay_pos: "0 < timer_delay t"
  by (simp add: timer_delay_def)


lemma not_settled_clamped:
  "t \<noteq> 0 \<Longrightarrow> \<not> settles_before s t \<Longrightarrow> \<not> settles_before s (timer_delay t)"
  using timer_delay_le [of t] by (cases s) auto

text \<open>
  Claim C1. When the task fails before any deadline, the supervisor is to set the status
  to \<^verbatim>\<open>'error'\<close> and pass the error to \<^verbatim>\<open>onError\<close>, or fail with it, whether or not a
  timeout is configured. With a timeout configured it does not: for the job \<open>flaky\<close>
  (timeout 100 ms, task rejected after 10 ms) the rejection reaches nobody. The status
  stays \<^verbatim>\<open>'running'\<close>, \<^verbatim>\<open>onError\<close> is not called, the promise of the runnable never settles,
  and the reason is left as an unhandled rejection; with \<^verbatim>\<open>onError\<close> and without. The same
  job without its timeout is treated as the claim says.
\<close>

theorem rejection_under_timeout_is_lost:
  "prepare flaky None None (Some report) (fresh flaky) =
     (\<lparr>job = flaky\<lparr>status := Some Running\<rparr>, calls = 1,
       log = [Assign Running, Call 0, Unhandled (Thrown 7)], detached = []\<rparr>,
      Unsettled)
   \<and> prepare flaky None None None (fresh flaky) =
     (\<lparr>job = flaky\<lparr>status := Some Running\<rparr>, calls = 1,
       log = [Assign Running, Call 0, Unhandled (Thrown 7)], detached = []\<rparr>,
      Unsettled)
   \<and> prepare flaky None None (Some report) (fresh (flaky\<lparr>timeout := None\<rparr>)) =
     (\<lparr>job = flaky\<lparr>status := Some Error, timeout := None\<rparr>, calls = 1,
       log = [Assign Running, Call 0, Assign Error,
              OnError \<lparr>name = ''flaky'', status = Some Error\<rparr> (Thrown 7)],
       detached = []\<rparr>,
      Fulfilled)"
  by (simp add: prepare_defs fresh_def flaky_def report_def)

text \<open>
  The two branches for any job, with the timeout the job has when the wait begins:
  without a timeout a rejection of the task is caught, and with one a rejection that
  comes before the deadline is lost.
\<close>

lemma failure_without_timeout:
  assumes "\<not> truthy (timeout (job (call_before beforeFn w)))"
    and "status (job w) \<noteq> Some Running" and "do j0 (calls w) = Rejects d e"
  shows "prepare j0 beforeFn afterFn onError w =
        (let w1 = call_before beforeFn w;
             w4 = w1\<lparr>job := (job w1)\<lparr>status := Some Error\<rparr>,
                     calls := Suc (calls w),
                     log := log w1 @ [Assign Running, Call (calls w), Assign Error]\<rparr>
         in case onError of
              None \<Rightarrow> (w4, Rejected e)
            | Some f \<Rightarrow>
                (w4\<lparr>job := f (job w4) e, log := log w4 @ [OnError (info (job w4)) e]\<rparr>,
                 Fulfilled))"
  using assms
  apply (cases onError; cases beforeFn)
  apply (auto simp: prepare_defs split: prod.splits awaited.splits settle.splits option.splits)
  done

lemma rejection_lost_in_race:
  assumes "timeout (job (call_before beforeFn w)) = Some t" and "t \<noteq> 0"
    and "status (job w) \<noteq> Some Running"
    and "do j0 (calls w) = Rejects d e" and "d < timer_delay t"
  shows "prepare j0 beforeFn afterFn onError w =
        (let w1 = call_before beforeFn w
         in (w1\<lparr>job := (job w1)\<lparr>status := Some Running\<rparr>,
                calls := Suc (calls w),
                log := log w1 @ [Assign Running, Call (calls w), Unhandled e]\<rparr>,
             Unsettled))"
  using assms
  apply (cases onError; cases beforeFn)
  apply (auto simp: prepare_defs split: prod.splits awaited.splits settle.splits option.splits)
  done

text \<open>
  Claim C3, as the code has it. An invocation that finds the status \<^verbatim>\<open>'running'\<close> does not
  call the task and assigns nothing: it builds a \<^verbatim>\<open>PreviousExecutionNotCompleteError\<close> with
  the job's name and the status \<^verbatim>\<open>'running'\<close>, and either fails with it, leaving the world
  as it is, or passes it with the job itself to \<^verbatim>\<open>onError\<close> and is fulfilled; the job is
  then as \<^verbatim>\<open>onError\<close> left it and the call of \<^verbatim>\<open>onError\<close> is all that happened. So the status
  is still \<^verbatim>\<open>'running'\<close> where \<^verbatim>\<open>onError\<close> is absent or leaves the status as it finds it. An
  invocation that finds any other status calls the task.
\<close>

theorem overlap_check:
  "(status (job w) = Some Running \<longrightarrow>
      prepare j0 beforeFn afterFn onError w =
        (case onError of
           None \<Rightarrow>
             (w, Rejected (PreviousExecutionNotCompleteError (name (job w)) (Some Running) ''''))
         | Some f \<Rightarrow>
             (w\<lparr>job := f (job w)
                         (PreviousExecutionNotCompleteError (name (job w)) (Some Running) ''''),
                log := log w @
                  [OnError (info (job w))
                     (PreviousExecutionNotCompleteError (name (job w)) (Some Running) '''')]\<rparr>,
              Fulfilled))
      \<and> calls (fst (prepare j0 beforeFn afterFn onError w)) = calls w
      \<and> (onError_keeps_status onError \<longrightarrow>
            status (job (fst (prepare j0 beforeFn afterFn onError w))) = Some Running))
   \<and> (status (job w) \<noteq> Some Running \<longrightarrow>
        calls (fst (prepare j0 beforeFn afterFn onError w)) = Suc (calls w)
        \<and> Call (calls w) \<in> set (log (fst (prepare j0 beforeFn afterFn onError w))))"
  apply (cases onError; cases beforeFn; cases afterFn;
      cases "truthy (timeout (job (call_before beforeFn w)))"; cases "do j0 (calls w)")
  apply (auto simp: prepare_defs split: prod.splits awaited.splits settle.splits option.splits)
  done

theorem overlap_check_witness:
  "status (job (fresh busy)) = Some Running
   \<and> onError_keeps_status (Some report)
   \<and> prepare busy (Some observe) (Some observe) None (fresh busy) =
       (fresh busy, Rejected (PreviousExecutionNotCompleteError ''busy'' (Some Running) ''''))
   \<and> prepare busy (Some observe) (Some observe) (Some report) (fresh busy) =
       ((fresh busy)\<lparr>log :=
           [OnError \<lparr>name = ''busy'', status = Some Running\<rparr>
              (PreviousExecutionNotCompleteError ''busy'' (Some Running) '''')]\<rparr>,
        Fulfilled)
   \<and> status (job (fst (prepare busy (Some observe) (Some observe) (Some report) (fresh busy))))
       = Some Running
   \<and> status (job (fresh (quick\<lparr>status := Some Error\<rparr>))) \<noteq> Some Running
   \<and> calls (fst (prepare quick None None None (fresh (quick\<lparr>status := Some Error\<rparr>)))) = Suc 0"
proof -
  have k: "onError_keeps_status (Some report)"
    by (simp add: report_def)
  show ?thesis
    using k overlap_check [of "fresh busy" busy "Some observe" "Some observe" None]
      overlap_check [of "fresh busy" busy "Some observe" "Some observe" "Some report"]
      overlap_check [of "fresh (quick\<lparr>status := Some Error\<rparr>)" quick None None None]
    by (simp add: fresh_def busy_def quick_def report_def info_def)
qed

text \<open>
  Claim C3 as stated fails for an \<^verbatim>\<open>onError\<close> callback that assigns to the status of the job
  it is given. The execution of \<open>busy\<close> is in flight, the invocation is refused, and
  \<^verbatim>\<open>onError\<close> leaves the status \<^verbatim>\<open>'pending'\<close>; the next invocation then calls the task.
\<close>

theorem onError_writes_status:
  "prepare busy None None (Some reset) (fresh busy) =
     ((fresh busy)\<lparr>job := busy\<lparr>status := Some Pending\<rparr>,
        log := [OnError \<lparr>name = ''busy'', status = Some Running\<rparr>
                  (PreviousExecutionNotCompleteError ''busy'' (Some Running) '''')]\<rparr>,
      Fulfilled)
   \<and> calls (fst (prepare busy None None (Some reset)
        (fst (prepare busy None None (Some reset) (fresh busy))))) = 1"
  by (simp add: prepare_defs fresh_def busy_def quick_def reset_def)

text \<open>
  Claim C4, as the code has it. With a timeout \<open>t\<close> set when the wait begins, when the task
  does not settle before the timer, the timed wait fails with a \<^verbatim>\<open>TimeoutError\<close> that
  carries the job's name and the status \<^verbatim>\<open>'running'\<close>; the status is then set to \<^verbatim>\<open>'error'\<close>;
  the task is left running (its call is added to \<open>detached\<close>), and what it does later
  changes nothing. The runnable fails with that error when \<^verbatim>\<open>onError\<close> is absent. When
  \<^verbatim>\<open>onError\<close> is supplied it is called with the error and the runnable is fulfilled.
\<close>

theorem deadline_elapses:
  assumes "timeout (job (call_before beforeFn w)) = Some t" and "t \<noteq> 0"
    and "status (job w) \<noteq> Some Running"
    and "\<not> settles_before (do j0 (calls w)) (timer_delay t)"
  shows "snd (await_race (do j0) t (set_status Running (call_before beforeFn w)))
           = Threw (TimeoutError (name (job (call_before beforeFn w))) (Some Running) ''timed out'')
    \<and> prepare j0 beforeFn afterFn onError w =
        (let w1 = call_before beforeFn w;
             err = TimeoutError (name (job w1)) (Some Running) ''timed out'';
             w4 = w1\<lparr>job := (job w1)\<lparr>status := Some Error\<rparr>,
                     calls := Suc (calls w),
                     log := log w1 @ [Assign Running, Call (calls w), Assign Error],
                     detached := detached w @ [calls w]\<rparr>
         in case onError of
              None \<Rightarrow> (w4, Rejected err)
            | Some f \<Rightarrow>
                (w4\<lparr>job := f (job w4) err, log := log w4 @ [OnError (info (job w4)) err]\<rparr>,
                 Fulfilled))"
  using assms
  apply (cases onError; cases beforeFn)
  apply (auto simp: prepare_defs split: prod.splits awaited.splits settle.splits option.splits)
  done

theorem deadline_elapses_witness:
  "timeout (job (call_before None (fresh slow))) = Some 50 \<and> (50::nat) \<noteq> 0
   \<and> status (job (fresh slow)) \<noteq> Some Running
   \<and> \<not> settles_before (do slow (calls (fresh slow))) (timer_delay 50)
   \<and> prepare slow None None None (fresh slow) =
       (\<lparr>job = slow\<lparr>status := Some Error\<rparr>, calls = 1,
         log = [Assign Running, Call 0, Assign Error], detached = [0]\<rparr>,
        Rejected (TimeoutError ''slow'' (Some Running) ''timed out''))"
proof -
  have h: "timeout (job (call_before None (fresh slow))) = Some 50" "(50::nat) \<noteq> 0"
    "status (job (fresh slow)) \<noteq> Some Running"
    "\<not> settles_before (do slow (calls (fresh slow))) (timer_delay 50)"
    by (simp_all add: fresh_def slow_def call_before_def)
  show ?thesis
    using h deadline_elapses [OF h, of None None]
    by (simp add: fresh_def slow_def call_before_def)
qed

text \<open>
  Claim C4 as stated fails where \<^verbatim>\<open>onError\<close> is supplied: the job \<open>slow\<close> (timeout 50 ms,
  task fulfilled after 200 ms) times out, and the invocation does not fail.
\<close>

theorem timeout_soft_fail:
  "prepare slow None None (Some report) (fresh slow) =
     (\<lparr>job = slow\<lparr>status := Some Error\<rparr>, calls = 1,
       log = [Assign Running, Call 0, Assign Error,
              OnError \<lparr>name = ''slow'', status = Some Error\<rparr>
                (TimeoutError ''slow'' (Some Running) ''timed out'')],
       detached = [0]\<rparr>,
      Fulfilled)"
  by (simp add: prepare_defs fresh_def slow_def report_def)





lemma single_tick:
  assumes "\<not> truthy (timeout (job w))" "succeeds (do j0 (calls w))"
    "status (job w) \<noteq> Some Running" "keeps_status afterFn"
    "keeps_timeout beforeFn" "keeps_timeout afterFn"
  shows "\<exists>w' es. prepare j0 beforeFn afterFn onError w = (w', Fulfilled)
     \<and> log w' = log w @ es \<and> tick_events beforeFn afterFn es
     \<and> status (job w') = Some Pending \<and> timeout (job w') = timeout (job w)
     \<and> calls w' = Suc (calls w)"
  using assms
  apply (cases beforeFn; cases afterFn; cases "do j0 (calls w)")
  apply (auto simp: prepare_defs tick_events_def
      split: prod.splits awaited.splits settle.splits option.splits)
  done

lemma many_ticks:
  assumes "\<forall>k. succeeds (do j0 k)" "keeps_status afterFn"
    "keeps_timeout beforeFn" "keeps_timeout afterFn"
  shows "\<not> truthy (timeout (job w)) \<Longrightarrow> status (job w) \<noteq> Some Running \<Longrightarrow>
    \<exists>w' ticks. repeatedly (prepare j0 beforeFn afterFn onError) n w = (w', replicate n Fulfilled)
      \<and> length ticks = n \<and> list_all (tick_events beforeFn afterFn) ticks
      \<and> log w' = log w @ concat ticks \<and> calls w' = calls w + n
      \<and> status (job w') = (if n = 0 then status (job w) else Some Pending)"
proof (induction n arbitrary: w)
  case 0
  then show ?case by simp
next
  case (Suc n)
  from assms Suc.prems obtain w1 es where
    1: "prepare j0 beforeFn afterFn onError w = (w1, Fulfilled)" "log w1 = log w @ es"
      "tick_events beforeFn afterFn es" "status (job w1) = Some Pending"
      "timeout (job w1) = timeout (job w)" "calls w1 = Suc (calls w)"
    using single_tick [of w j0 afterFn beforeFn onError] by blast
  from 1 Suc.prems have "\<not> truthy (timeout (job w1))" "status (job w1) \<noteq> Some Running"
    by simp_all
  from Suc.IH [OF this] obtain w2 ticks where
    2: "repeatedly (prepare j0 beforeFn afterFn onError) n w1 = (w2, replicate n Fulfilled)"
      "length ticks = n" "list_all (tick_events beforeFn afterFn) ticks"
      "log w2 = log w1 @ concat ticks" "calls w2 = calls w1 + n"
      "status (job w2) = (if n = 0 then status (job w1) else Some Pending)"
    by blast
  have "repeatedly (prepare j0 beforeFn afterFn onError) (Suc n) w
          = (w2, replicate (Suc n) Fulfilled)"
    using 1 2 by simp
  moreover have "length (es # ticks) = Suc n" using 2 by simp
  moreover have "list_all (tick_events beforeFn afterFn) (es # ticks)" using 1 2 by simp
  moreover have "log w2 = log w @ concat (es # ticks)" using 1 2 by simp
  moreover have "calls w2 = calls w + Suc n" using 1 2 by simp
  moreover have "status (job w2) = (if Suc n = 0 then status (job w) else Some Pending)"
    using 1 2 by simp
  ultimately show ?case by blast
qed

text \<open>
  Claim C6, as the code has it. Take a job with no timeout whose task always succeeds,
  whose status is not \<^verbatim>\<open>'running'\<close> at the first invocation, callbacks that, if supplied,
  leave the timeout as they find it, and an \<^verbatim>\<open>after\<close> callback that, if supplied, leaves the
  status as it finds it. Then \<open>n\<close> invocations one after the other are all fulfilled, and
  what happens is \<open>n\<close> ticks of the same shape: \<^verbatim>\<open>before\<close> if supplied, the status set to
  \<^verbatim>\<open>'running'\<close>, the task, the status set to \<^verbatim>\<open>'pending'\<close>, \<^verbatim>\<open>after\<close> if supplied. No error is
  built, passed on or raised.
\<close>

theorem ticks_alternate:
  assumes "\<not> truthy (timeout (job w))" and "\<forall>k. succeeds (do j0 k)"
    and "status (job w) \<noteq> Some Running" and "keeps_status afterFn"
    and "keeps_timeout beforeFn" and "keeps_timeout afterFn"
  shows "snd (repeatedly (prepare j0 beforeFn afterFn onError) n w) = replicate n Fulfilled
    \<and> (\<exists>ticks. length ticks = n \<and> list_all (tick_events beforeFn afterFn) ticks
          \<and> log (fst (repeatedly (prepare j0 beforeFn afterFn onError) n w))
              = log w @ concat ticks)
    \<and> calls (fst (repeatedly (prepare j0 beforeFn afterFn onError) n w)) = calls w + n
    \<and> status (job (fst (repeatedly (prepare j0 beforeFn afterFn onError) n w)))
        = (if n = 0 then status (job w) else Some Pending)"
proof -
  from many_ticks [OF assms(2) assms(4) assms(5) assms(6) assms(1) assms(3), of onError n]
  obtain w' ticks where
    "repeatedly (prepare j0 beforeFn afterFn onError) n w = (w', replicate n Fulfilled)"
    "length ticks = n" "list_all (tick_events beforeFn afterFn) ticks"
    "log w' = log w @ concat ticks" "calls w' = calls w + n"
    "status (job w') = (if n = 0 then status (job w) else Some Pending)"
    by blast
  then show ?thesis by auto
qed

theorem ticks_alternate_witness:
  "\<not> truthy (timeout (job (fresh quick))) \<and> (\<forall>k. succeeds (do quick k))
   \<and> status (job (fresh quick)) \<noteq> Some Running \<and> keeps_status (Some observe)
   \<and> keeps_timeout (Some rename) \<and> keeps_timeout (Some observe)
   \<and> snd (repeatedly (prepare quick (Some rename) (Some observe) None) 3 (fresh quick))
       = [Fulfilled, Fulfilled, Fulfilled]
   \<and> calls (fst (repeatedly (prepare quick (Some rename) (Some observe) None) 3 (fresh quick)))
       = 3
   \<and> status (job (fst (repeatedly (prepare quick (Some rename) (Some observe) None) 3
        (fresh quick)))) = Some Pending"
proof -
  have h: "\<not> truthy (timeout (job (fresh quick)))" "\<forall>k. succeeds (do quick k)"
    "status (job (fresh quick)) \<noteq> Some Running" "keeps_status (Some observe)"
    "keeps_timeout (Some rename)" "keeps_timeout (Some observe)"
    by (simp_all add: fresh_def quick_def observe_def rename_def)
  show ?thesis
    using h ticks_alternate [OF h, of None 3]
    by (simp add: fresh_def numeral_3_eq_3)
qed

text \<open>
  Claim C6 as stated fails three times over. For an \<^verbatim>\<open>after\<close> callback that sets the status
  of what it is given to \<^verbatim>\<open>'running'\<close>, the job has no timeout and its task always succeeds,
  and the second of two invocations one after the other is refused. For a job that is
  handed over with the status \<^verbatim>\<open>'running'\<close>, the first invocation is refused. And for a
  \<^verbatim>\<open>before\<close> callback that sets the timeout of what it is given to 1 ms, the task of
  \<open>unhurried\<close>, which succeeds after 5 ms, runs into it and the invocation fails.
\<close>

theorem ticks_refused:
  "snd (repeatedly (prepare quick None (Some mark_running) None) 2 (fresh quick)) =
     [Fulfilled, Rejected (PreviousExecutionNotCompleteError ''quick'' (Some Running) '''')]
   \<and> snd (repeatedly (prepare busy None None None) 1 (fresh busy)) =
     [Rejected (PreviousExecutionNotCompleteError ''busy'' (Some Running) '''')]
   \<and> snd (repeatedly (prepare unhurried (Some shorten) None None) 1 (fresh unhurried)) =
     [Rejected (TimeoutError ''unhurried'' (Some Running) ''timed out'')]"
  by (simp add: prepare_defs fresh_def quick_def busy_def unhurried_def mark_running_def
      shorten_def numeral_2_eq_2)

section \<open>What the sequencer does\<close>

lemma sequence_from_shift:
  "sequence_from (Suc i) (f # fs) w = sequence_from i fs w"
proof (induction i fs w rule: sequence_from.induct)
  case (1 i doFns w)
  show ?case
  proof (cases "i < length doFns")
    case False
    then show ?thesis
      by (simp add: sequence_from.simps [of "Suc i"] sequence_from.simps [of i])
  next
    case True
    obtain w1 r where f: "(doFns ! i) w = (w1, r)" by (cases "(doFns ! i) w")
    show ?thesis
    proof (cases r)
      case Fulfilled
      with "1.IH" [OF True] f
      have "sequence_from (Suc (i + 1)) (f # doFns) w1 = sequence_from (i + 1) doFns w1"
        by simp
      with True f Fulfilled show ?thesis
        by (simp add: sequence_from.simps [of "Suc i"] sequence_from.simps [of i])
    next
      case (Rejected e)
      with True f show ?thesis
        by (simp add: sequence_from.simps [of "Suc i"] sequence_from.simps [of i])
    next
      case Unsettled
      with True f show ?thesis
        by (simp add: sequence_from.simps [of "Suc i"] sequence_from.simps [of i])
    qed
  qed
qed

lemma sequence_Nil: "sequence [] w = (w, Fulfilled)"
  by (simp add: sequence_def sequence_from.simps [of 0])

lemma sequence_Cons:
  "sequence (f # fs) w =
     (case f w of
        (w1, Fulfilled) \<Rightarrow> sequence fs w1
      | (w1, Rejected e) \<Rightarrow> (w1, Rejected e)
      | (w1, Unsettled) \<Rightarrow> (w1, Unsettled))"
  by (simp add: sequence_def sequence_from.simps [of 0 "f # fs"] sequence_from_shift
      split: prod.splits result.splits)

lemma sequence_append:
  "sequence as w = (w1, Fulfilled) \<Longrightarrow> sequence (as @ bs) w = sequence bs w1"
proof (induction as arbitrary: w)
  case Nil
  then show ?case by (simp add: sequence_Nil)
next
  case (Cons a as)
  then show ?case
    by (auto simp: sequence_Cons split: prod.splits result.splits)
qed

text \<open>
  Claim C8. The sequence of no runnable is fulfilled and changes nothing; the sequence
  of one runnable is that runnable. Runnables run in the order given, each from the state
  the ones before it left when they were fulfilled: after a fulfilled prefix \<open>as\<close> the rest
  \<open>bs\<close> runs from where \<open>as\<close> ended. When a step \<open>b\<close> is rejected after a fulfilled prefix,
  the sequence is rejected with the reason of \<open>b\<close> in the state \<open>b\<close> left, whatever the
  steps \<open>cs\<close> after it are: none of them runs.
\<close>

theorem sequence_in_order:
  "sequence [] w = (w, Fulfilled)
   \<and> sequence [f] w = f w
   \<and> (sequence as w = (w1, Fulfilled) \<longrightarrow> sequence (as @ bs) w = sequence bs w1)
   \<and> (sequence as w = (w1, Fulfilled) \<and> b w1 = (w2, Rejected e) \<longrightarrow>
        sequence (as @ b # cs) w = (w2, Rejected e))"
proof -
  have 1: "sequence [f] w = f w"
    by (cases "f w") (auto simp: sequence_Cons sequence_Nil split: result.splits)
  have 2: "sequence (as @ b # cs) w = (w2, Rejected e)"
    if "sequence as w = (w1, Fulfilled)" "b w1 = (w2, Rejected e)"
    using that by (simp add: sequence_append sequence_Cons)
  show ?thesis
    using 1 2 by (simp add: sequence_Nil sequence_append)
qed

theorem sequence_in_order_witness:
  "sequence [passes 1] [] = ([1], Fulfilled)
   \<and> breaks 2 [1] = ([1, 2], Rejected (Thrown 2))
   \<and> sequence ([passes 1] @ [passes 2, passes 3]) [] = ([1, 2, 3], Fulfilled)
   \<and> sequence ([passes 1] @ breaks 2 # [passes 3]) [] = ([1, 2], Rejected (Thrown 2))"
proof -
  have a: "sequence [passes 1] [] = ([1], Fulfilled)"
    using sequence_in_order [of "[]" "passes 1"] by (simp add: passes_def)
  have b: "breaks 2 [1] = ([1, 2], Rejected (Thrown 2))"
    by (simp add: breaks_def)
  have c: "sequence [passes 2, passes 3] [1] = ([1, 2, 3], Fulfilled)"
    by (simp add: sequence_Cons sequence_Nil passes_def)
  show ?thesis
    using a b c
      sequence_in_order [of "[]" "passes 1" "[passes 1]" "[1]" "[passes 2, passes 3]" "breaks 2"
        "[1, 2]" "Thrown 2" "[passes 3]"]
    by (simp add: passes_def)
qed

section \<open>What the orchestrator does\<close>

lemma earliest_in: "earliest f xs = Some x \<Longrightarrow> x \<in> set xs"
  by (induction xs arbitrary: x) (auto split: option.splits if_splits)

lemma earliest_None: "earliest f xs = None \<Longrightarrow> xs = []"
  by (cases xs) (auto split: option.splits if_splits)

lemma earliest_least: "earliest f xs = Some x \<Longrightarrow> \<forall>y \<in> set xs. f x \<le> f y"
proof (induction xs arbitrary: x)
  case Nil
  then show ?case by simp
next
  case (Cons z zs)
  show ?case
  proof (cases "earliest f zs")
    case None
    with Cons.prems earliest_None [OF None] show ?thesis by simp
  next
    case (Some m)
    from Cons.IH [OF Some] have m: "\<forall>y \<in> set zs. f m \<le> f y" .
    show ?thesis
    proof (cases "f m < f z")
      case True
      with Some Cons.prems have "x = m" by simp
      with True m show ?thesis by auto
    next
      case False
      with Some Cons.prems have "x = z" by simp
      with False m show ?thesis by fastforce
    qed
  qed
qed

lemma earliest_le: "earliest f xs = Some x \<Longrightarrow> y \<in> set xs \<Longrightarrow> f x \<le> f y"
  using earliest_least [of f xs x] by simp

lemma steps_numeral: "steps (numeral k) s = steps (pred_numeral k) (step s)"
  by (simp add: numeral_eq_Suc)

lemma steps_1: "steps 1 s = step s"
  by simp

lemma steps_add: "steps (n + m) s = steps m (steps n s)"
  by (induction n arbitrary: s) simp_all

lemma copy_nth:
  "i < length jobs \<Longrightarrow>
   (h @ map (\<lambda>a. (h ! a)\<lparr>status := Some Pending\<rparr>) jobs) ! (length h + i)
     = (h ! (jobs ! i))\<lparr>status := Some Pending\<rparr>"
  by (simp add: nth_append)

lemma copy_do:
  assumes "a \<in> working h jobs"
  shows "\<exists>b \<in> set jobs. do ((h @ map (\<lambda>a. (h ! a)\<lparr>status := Some Pending\<rparr>) jobs) ! a) = do (h ! b)"
proof -
  from assms have "length h \<le> a" "a - length h < length jobs"
    by (auto simp: working_def)
  then have "(h @ map (\<lambda>a. (h ! a)\<lparr>status := Some Pending\<rparr>) jobs) ! a
      = (h ! (jobs ! (a - length h)))\<lparr>status := Some Pending\<rparr>"
    by (simp add: nth_append)
  moreover have "jobs ! (a - length h) \<in> set jobs"
    using \<open>a - length h < length jobs\<close> by simp
  ultimately show ?thesis by auto
qed

lemma heap_tick [simp]: "heap (tick a s) = heap s"
  by (simp add: tick_def Let_def split: settle.splits)

lemma heap_schedule [simp]: "heap (schedule a s) = heap s"
  by (simp add: schedule_def startJob_def)

lemma now_tick [simp]: "now (tick a s) = now s"
  by (simp add: tick_def Let_def split: settle.splits)

lemma now_schedule [simp]: "now (schedule a s) = now s"
  by (simp add: schedule_def startJob_def)

lemma heap_foldl [simp]: "heap (foldl (\<lambda>s b. schedule b s) s bs) = heap s"
  by (induction bs arbitrary: s) auto

lemma now_foldl [simp]: "now (foldl (\<lambda>s b. schedule b s) s bs) = now s"
  by (induction bs arbitrary: s) auto


subsection \<open>The store, the timers and the promise\<close>

lemma inv_tick:
  assumes "cycle_inv h jobs s" "a \<in> working h jobs"
  shows "cycle_inv h jobs (tick a s)"
proof -
  from copy_do [OF assms(2)] obtain b where
    b: "b \<in> set jobs" "do (heap s ! a) = do (h ! b)"
    using assms(1) by (auto simp: cycle_inv_def)
  have "\<And>d e. do (heap s ! a) (length (ticked s)) = Rejects d e \<Longrightarrow> e \<in> failures h jobs"
    using b by (auto simp: failures_def)
  then show ?thesis
    using assms by (auto simp: cycle_inv_def tick_def Let_def split: settle.splits)
qed

lemma inv_startJob:
  assumes "cycle_inv h jobs s" "a \<in> working h jobs"
  shows "cycle_inv h jobs (startJob a s)"
  unfolding startJob_def
  by (rule inv_tick) (use assms in \<open>auto simp: cycle_inv_def\<close>)

lemma inv_schedule:
  assumes "cycle_inv h jobs s" "a \<in> working h jobs"
  shows "cycle_inv h jobs (schedule a s)"
  using assms inv_startJob [OF assms] by (auto simp: schedule_def cycle_inv_def)

lemma inv_fail:
  assumes "cycle_inv h jobs s" "e \<in> failures h jobs"
  shows "cycle_inv h jobs (fail e s)"
  using assms by (auto simp: fail_def cycle_inv_def)

lemma inv_deliver:
  assumes "cycle_inv h jobs s" "r \<in> set (rejections s)"
  shows "cycle_inv h jobs (deliver r s)"
  unfolding deliver_def
  by (rule inv_fail) (use assms in \<open>auto simp: cycle_inv_def dest: notin_set_remove1\<close>)

lemma inv_fire:
  assumes "cycle_inv h jobs s" "t \<in> set (timers s)"
  shows "cycle_inv h jobs (fire t s)"
proof -
  let ?s1 = "s\<lparr>now := max (now s) (due t),
                 timers :=
                   (case every t of
                      None \<Rightarrow> remove1 t (timers s)
                    | Some p \<Rightarrow>
                        map (\<lambda>u. if u = t then u\<lparr>due := max (now s) (due t) + p\<rparr> else u)
                          (timers s))\<rparr>"
  have 1: "cycle_inv h jobs ?s1"
    using assms by (auto simp: cycle_inv_def split: option.splits dest: notin_set_remove1)
  have 2: "ref (act t) \<in> working h jobs"
    using assms by (auto simp: cycle_inv_def)
  show ?thesis
    using inv_startJob [OF 1] inv_tick [OF 1] 2
    by (cases "act t") (auto simp: fire_def Let_def)
qed

lemma step_cases:
  "step s = s \<or> (\<exists>r \<in> set (rejections s). step s = deliver r s)
   \<or> (\<exists>t \<in> set (timers s). step s = fire t s)"
  by (auto simp: step_def split: option.splits dest: earliest_in)

lemma inv_step: "cycle_inv h jobs s \<Longrightarrow> cycle_inv h jobs (step s)"
  using step_cases [of s] by (auto intro: inv_deliver inv_fire)

lemma inv_steps: "cycle_inv h jobs s \<Longrightarrow> cycle_inv h jobs (steps n s)"
  by (induction n arbitrary: s) (auto intro: inv_step)

lemma inv_foldl:
  "cycle_inv h jobs s \<Longrightarrow> set bs \<subseteq> working h jobs \<Longrightarrow>
   cycle_inv h jobs (foldl (\<lambda>s a. schedule a s) s bs)"
  by (induction bs arbitrary: s) (auto intro: inv_schedule)

lemma inv_run: "cycle_inv h jobs (run h jobs)"
  unfolding run_def Let_def
  by (rule inv_foldl) (auto simp: cycle_inv_def working_def)

text \<open>
  Claim C9. At every moment of a cycle the store begins with the caller's objects,
  exactly as they were at the call, and goes on with one copy per entry of the caller's
  array, each the entry's job with the status \<^verbatim>\<open>'pending'\<close>. Every timer, every interval
  set and every tick belongs to a copy: an address beyond the caller's objects.
\<close>

theorem run_copies:
  "take (length h) (heap (steps n (run h jobs))) = h
   \<and> drop (length h) (heap (steps n (run h jobs)))
       = map (\<lambda>a. (h ! a)\<lparr>status := Some Pending\<rparr>) jobs
   \<and> list_all (\<lambda>t. length h \<le> ref (act t)) (timers (steps n (run h jobs)))
   \<and> list_all (\<lambda>x. length h \<le> snd x) (armed (steps n (run h jobs)))
   \<and> list_all (\<lambda>x. length h \<le> snd x) (ticked (steps n (run h jobs)))"
  using inv_steps [OF inv_run, of h jobs n]
  by (auto simp: cycle_inv_def working_def list_all_iff)

text \<open>
  Claim C10. At no moment of a cycle is the promise of \<^verbatim>\<open>run\<close> fulfilled: it is pending,
  or rejected with a reason some job's task was rejected with. For the empty list no
  timer is set and no rejection is to come, nothing ever happens, and the promise stays
  pending.
\<close>

theorem run_never_resolves:
  "promise (steps n (run h jobs)) \<noteq> Fulfilled
   \<and> promise (steps n (run h jobs)) \<in> insert Unsettled (Rejected ` failures h jobs)
   \<and> timers (run h []) = [] \<and> rejections (run h []) = []
   \<and> steps n (run h []) = run h [] \<and> promise (run h []) = Unsettled"
proof -
  have 1: "promise (steps n (run h jobs)) \<in> insert Unsettled (Rejected ` failures h jobs)"
    using inv_steps [OF inv_run, of h jobs n] by (simp add: cycle_inv_def)
  then have 2: "promise (steps n (run h jobs)) \<noteq> Fulfilled" by auto
  have 3: "step (run h []) = run h []"
    by (simp add: run_def step_def)
  have "steps n (run h []) = run h []"
    by (induction n) (simp_all add: 3)
  with 1 2 show ?thesis by (simp add: run_def)
qed

text \<open>
  Neither depends on the order in which the event loop takes what is due: the states
  the deterministic loop goes through are among those reached in any order, and the
  store, the timers and the promise are as described in all of them.
\<close>

lemma reached_step: "reached h jobs s \<Longrightarrow> reached h jobs (step s)"
  using step_cases [of s] by (auto intro: reached.intros)

lemma reached_steps: "reached h jobs (steps n (run h jobs))"
proof -
  have "reached h jobs s \<Longrightarrow> reached h jobs (steps n s)" for s
    by (induction n arbitrary: s) (auto intro: reached_step)
  then show ?thesis by (simp add: reached.at_call)
qed

lemma reached_inv: "reached h jobs s \<Longrightarrow> cycle_inv h jobs s"
  by (induction rule: reached.induct) (auto intro: inv_run inv_deliver inv_fire)

lemma reached_never_resolves: "reached h jobs s \<Longrightarrow> promise s \<noteq> Fulfilled"
  using reached_inv [of h jobs s] by (auto simp: cycle_inv_def)

subsection \<open>Deferment\<close>

lemma late_tick:
  assumes "not_before d a s" "b = a \<longrightarrow> d \<le> now s"
  shows "not_before d a (tick b s)"
  using assms by (auto simp: not_before_def tick_def Let_def split: settle.splits)

lemma late_startJob:
  assumes "not_before d a s" "b = a \<longrightarrow> d \<le> now s"
  shows "not_before d a (startJob b s)"
  unfolding startJob_def
  by (rule late_tick) (use assms in \<open>auto simp: not_before_def\<close>)

lemma late_schedule:
  assumes "not_before d a s"
    "b = a \<longrightarrow> truthy (defer_ms (heap s ! b)) \<and> d \<le> now s + timer_delay (the (defer_ms (heap s ! b)))"
  shows "not_before d a (schedule b s)"
proof (cases "truthy (defer_ms (heap s ! b))")
  case True
  then show ?thesis
    using assms by (auto simp: schedule_def not_before_def)
next
  case False
  then have "b = a \<longrightarrow> d \<le> now s" using assms(2) by auto
  from late_startJob [OF assms(1) this] False show ?thesis
    by (simp add: schedule_def)
qed

lemma late_fail: "not_before d a s \<Longrightarrow> not_before d a (fail e s)"
  by (auto simp: not_before_def fail_def)

lemma late_deliver: "not_before d a s \<Longrightarrow> not_before d a (deliver r s)"
  unfolding deliver_def by (rule late_fail) (auto simp: not_before_def)

lemma late_fire:
  assumes "not_before d a s" "t \<in> set (timers s)"
  shows "not_before d a (fire t s)"
proof -
  let ?s1 = "s\<lparr>now := max (now s) (due t),
                 timers :=
                   (case every t of
                      None \<Rightarrow> remove1 t (timers s)
                    | Some p \<Rightarrow>
                        map (\<lambda>u. if u = t then u\<lparr>due := max (now s) (due t) + p\<rparr> else u)
                          (timers s))\<rparr>"
  have 1: "not_before d a ?s1"
    using assms by (auto simp: not_before_def split: option.splits dest: notin_set_remove1)
  have 2: "ref (act t) = a \<longrightarrow> d \<le> now ?s1"
    using assms by (auto simp: not_before_def)
  show ?thesis
    using late_startJob [OF 1, of "ref (act t)"] late_tick [OF 1, of "ref (act t)"] 2
    by (cases "act t") (auto simp: fire_def Let_def)
qed



lemma late_foldl:
  "not_before (timer_delay d) a s \<Longrightarrow> defer_ms (heap s ! a) = Some d \<Longrightarrow> d \<noteq> 0 \<Longrightarrow>
   not_before (timer_delay d) a (foldl (\<lambda>s b. schedule b s) s bs)"
proof (induction bs arbitrary: s)
  case Nil
  then show ?case by simp
next
  case (Cons b bs)
  have "not_before (timer_delay d) a (schedule b s)"
    by (rule late_schedule) (use Cons.prems in auto)
  from Cons.IH [OF this] Cons.prems(2,3) show ?case by simp
qed

lemma late_run:
  assumes "i < length jobs" "defer_ms (h ! (jobs ! i)) = Some d" "d \<noteq> 0"
  shows "not_before (timer_delay d) (length h + i) (run h jobs)"
  unfolding run_def Let_def
  by (rule late_foldl) (use assms in \<open>simp_all add: not_before_def copy_nth\<close>)

lemma reached_late:
  assumes "i < length jobs" "defer_ms (h ! (jobs ! i)) = Some d" "d \<noteq> 0"
  shows "reached h jobs s \<Longrightarrow> not_before (timer_delay d) (length h + i) s"
  by (induction rule: reached.induct) (auto intro: late_run [OF assms] late_deliver late_fire)







text \<open>The clock and the timers keep in step.\<close>

lemma in_time_tick: "in_time s \<Longrightarrow> in_time (tick a s)"
  by (auto simp: in_time_def tick_def Let_def split: settle.splits)

lemma in_time_startJob: "in_time s \<Longrightarrow> in_time (startJob a s)"
  unfolding startJob_def
  by (rule in_time_tick) (auto simp: in_time_def timer_delay_pos less_Suc_eq)




lemma in_time_deliver:
  assumes "in_time s" "\<forall>t \<in> set (timers s). fst r \<le> due t"
    "\<forall>x \<in> set (rejections s). fst r \<le> fst x"
  shows "in_time (deliver r s)"
  using assms
  by (auto simp: in_time_def deliver_def fail_def dest: notin_set_remove1)

lemma in_time_fire:
  assumes "in_time s" "t \<in> set (timers s)" "\<forall>u \<in> set (timers s). due t \<le> due u"
    "\<forall>x \<in> set (rejections s). due t \<le> fst x"
  shows "in_time (fire t s)"
proof -
  let ?s1 = "s\<lparr>now := max (now s) (due t),
                 timers :=
                   (case every t of
                      None \<Rightarrow> remove1 t (timers s)
                    | Some p \<Rightarrow>
                        map (\<lambda>u. if u = t then u\<lparr>due := max (now s) (due t) + p\<rparr> else u)
                          (timers s))\<rparr>"
  have "in_time ?s1"
    using assms
    by (auto simp: in_time_def max_def split: option.splits dest: notin_set_remove1)
  then show ?thesis
    by (cases "act t") (auto simp: fire_def Let_def intro: in_time_startJob in_time_tick)
qed

lemma in_time_step: "in_time s \<Longrightarrow> in_time (step s)"
  by (auto simp: step_def split: option.splits
      intro!: in_time_deliver in_time_fire
      dest: earliest_in earliest_le earliest_None)

lemma in_time_steps: "in_time s \<Longrightarrow> in_time (steps n s)"
  by (induction n arbitrary: s) (auto intro: in_time_step)



























text \<open>
  Claim C2. The first unhandled failure of a tick is to stop every timer of every job,
  those of jobs still waiting for their deferment included, so that no job is ticked
  afterwards. \<^verbatim>\<open>fail\<close> clears the intervals in \<^verbatim>\<open>timeouts\<close> and nothing else. In the cycle
  of \<open>failing\<close> (its first tick rejected at once) and \<open>deferred\<close> (deferment 500 ms, interval
  100 ms), the rejection comes at time 0 and rejects the promise, and the timeout that
  starts \<open>deferred\<close> is still set; at 500 ms it sets the interval of \<open>deferred\<close>, which is
  ticked then and every 100 ms from then on.
\<close>

theorem deferred_job_survives_failure:
  "promise (steps 1 (run [failing, deferred] [0, 1])) = Rejected (Thrown 1)
   \<and> now (steps 1 (run [failing, deferred] [0, 1])) = 0
   \<and> timers (steps 1 (run [failing, deferred] [0, 1]))
       = [\<lparr>tid = 1, due = 500, every = None, act = StartJob 3\<rparr>]
   \<and> ticked (steps 1 (run [failing, deferred] [0, 1])) = [(0, 2)]
   \<and> timers (steps 4 (run [failing, deferred] [0, 1]))
       = [\<lparr>tid = 2, due = 800, every = Some 100, act = Tick 3\<rparr>]
   \<and> ticked (steps 4 (run [failing, deferred] [0, 1])) = [(0, 2), (500, 3), (600, 3), (700, 3)]"
  by (simp add: run_def schedule_def startJob_def tick_def step_def steps_numeral
      deliver_def fire_def fail_def failing_def deferred_def Let_def)

text \<open>
  Where no job has a deferment the cancellation is complete: once the promise is
  rejected it keeps its reason, no timer is set and no job is ticked again. So it is in
  the cycle of \<open>third_fails\<close> and \<open>steady\<close>: the third tick of the first, at 200 ms, is
  rejected at 205 ms, and nothing is ticked after that.
\<close>

lemma tracked_tick: "tracked s \<Longrightarrow> tracked (tick a s)"
  by (auto simp: tracked_def tick_def Let_def split: settle.splits)

lemma tracked_startJob: "tracked s \<Longrightarrow> promise s = Unsettled \<Longrightarrow> tracked (startJob a s)"
  unfolding startJob_def by (rule tracked_tick) (auto simp: tracked_def)

lemma promise_tick [simp]: "promise (tick a s) = promise s"
  by (simp add: tick_def Let_def split: settle.splits)

lemma promise_schedule [simp]: "promise (schedule a s) = promise s"
  by (simp add: schedule_def startJob_def)

lemma tracked_schedule:
  "tracked s \<Longrightarrow> promise s = Unsettled \<Longrightarrow> \<not> truthy (defer_ms (heap s ! a)) \<Longrightarrow>
   tracked (schedule a s)"
  by (simp add: schedule_def tracked_startJob)

lemma tracked_foldl:
  "tracked s \<Longrightarrow> promise s = Unsettled \<Longrightarrow>
   list_all (\<lambda>a. \<not> truthy (defer_ms (heap s ! a))) bs \<Longrightarrow>
   tracked (foldl (\<lambda>s a. schedule a s) s bs)"
proof (induction bs arbitrary: s)
  case Nil
  then show ?case by simp
next
  case (Cons b bs)
  have "tracked (schedule b s)"
    by (rule tracked_schedule) (use Cons.prems in auto)
  from Cons.IH [OF this] Cons.prems show ?case by simp
qed

lemma tracked_run:
  assumes "list_all (\<lambda>a. \<not> truthy (defer_ms (h ! a))) jobs"
  shows "tracked (run h jobs)"
proof -
  have "list_all
          (\<lambda>a. \<not> truthy (defer_ms ((h @ map (\<lambda>a. (h ! a)\<lparr>status := Some Pending\<rparr>) jobs) ! a)))
          [length h ..< length h + length jobs]"
    using assms by (auto simp: list_all_iff nth_append all_set_conv_all_nth)
  then show ?thesis
    unfolding run_def Let_def
    by (intro tracked_foldl) (simp_all add: tracked_def)
qed

lemma tracked_deliver: "tracked s \<Longrightarrow> tracked (deliver r s)"
  by (auto simp: tracked_def deliver_def fail_def filter_empty_conv)

lemma tracked_fire:
  assumes "tracked s" "t \<in> set (timers s)"
  shows "tracked (fire t s)"
proof -
  from assms obtain a where a: "act t = Tick a" by (auto simp: tracked_def)
  from assms have p: "promise s = Unsettled" by (auto simp: tracked_def)
  let ?s1 = "s\<lparr>now := max (now s) (due t),
                 timers :=
                   (case every t of
                      None \<Rightarrow> remove1 t (timers s)
                    | Some p \<Rightarrow>
                        map (\<lambda>u. if u = t then u\<lparr>due := max (now s) (due t) + p\<rparr> else u)
                          (timers s))\<rparr>"
  have "tracked ?s1"
    using assms p by (auto simp: tracked_def split: option.splits dest: notin_set_remove1)
  then show ?thesis
    using a by (simp add: fire_def Let_def tracked_tick)
qed

lemma tracked_reached:
  assumes "list_all (\<lambda>a. \<not> truthy (defer_ms (h ! a))) jobs"
  shows "reached h jobs s \<Longrightarrow> tracked s"
  by (induction rule: reached.induct)
    (auto intro: tracked_run [OF assms] tracked_deliver tracked_fire)

lemma tracked_steps:
  assumes "list_all (\<lambda>a. \<not> truthy (defer_ms (h ! a))) jobs"
  shows "tracked (steps n (run h jobs))"
  using tracked_reached [OF assms reached_steps] .

lemma settled_step:
  assumes "tracked s" "promise s \<noteq> Unsettled"
  shows "tracked (step s) \<and> promise (step s) = promise s \<and> timers (step s) = []
    \<and> ticked (step s) = ticked s"
proof -
  from assms have "timers s = []" by (simp add: tracked_def)
  then show ?thesis
    using assms
    by (auto simp: tracked_def step_def deliver_def fail_def split: option.splits)
qed

lemma settled_steps:
  "tracked s \<Longrightarrow> promise s \<noteq> Unsettled \<Longrightarrow>
   promise (steps m s) = promise s \<and> timers (steps m s) = [] \<and> ticked (steps m s) = ticked s"
proof (induction m arbitrary: s)
  case 0
  then show ?case by (simp add: tracked_def)
next
  case (Suc m)
  from settled_step [OF Suc.prems] Suc.prems(2)
  have "tracked (step s)" "promise (step s) \<noteq> Unsettled" by simp_all
  from Suc.IH [OF this] settled_step [OF Suc.prems] show ?case by simp
qed

lemma cascade_without_deferment:
  assumes "list_all (\<lambda>a. \<not> truthy (defer_ms (h ! a))) jobs"
    and "promise (steps n (run h jobs)) \<noteq> Unsettled"
  shows "promise (steps (n + m) (run h jobs)) = promise (steps n (run h jobs))
    \<and> timers (steps (n + m) (run h jobs)) = []
    \<and> ticked (steps (n + m) (run h jobs)) = ticked (steps n (run h jobs))"
  using settled_steps [OF tracked_steps [OF assms(1)] assms(2), of m]
  by (simp add: steps_add)

lemma cascade_example:
  "promise (steps 3 (run [third_fails, steady] [0, 1])) = Unsettled
   \<and> now (steps 3 (run [third_fails, steady] [0, 1])) = 200
   \<and> promise (steps 4 (run [third_fails, steady] [0, 1])) = Rejected (Thrown 3)
   \<and> now (steps 4 (run [third_fails, steady] [0, 1])) = 205
   \<and> timers (steps 4 (run [third_fails, steady] [0, 1])) = []
   \<and> ticked (steps 4 (run [third_fails, steady] [0, 1]))
       = [(0, 2), (0, 3), (100, 2), (150, 3), (200, 2)]"
  by (simp add: run_def schedule_def startJob_def tick_def step_def steps_numeral
      deliver_def fire_def fail_def third_fails_def steady_def Let_def)

end
